theory Spec2Isabelle
  imports Main
begin

section \<open>The PDF splitter of \<open>main.py\<close>\<close>

text \<open>
  \<open>split_pdf_by_pages\<close> opens a PDF with PyMuPDF (\<open>fitz\<close>), validates a list of split
  points and writes one file per page range. The model below passes the state of the
  outside world explicitly: the handle of the input document, the chunk documents that
  are open, the directories and files on disk, and the lines printed on the console.
  Two calls of the library can raise in the model, as the source catches exactly these:
  opening the input (line 17) and saving a chunk (line 58). The calls outside a \<open>try\<close>
  (\<open>os.makedirs\<close>, \<open>fitz.open()\<close>, \<open>insert_pdf\<close>, \<open>close\<close>) are taken to return.
\<close>

subsection \<open>Printing integers and joining paths\<close>

text \<open>
  An f-string renders an integer in decimal, with a leading minus sign when negative.
\<close>

definition digit_char :: "nat \<Rightarrow> char" where
  "digit_char d = ''0123456789'' ! d"

function str_nat :: "nat \<Rightarrow> string" where
  "str_nat n = (if n < 10 then [digit_char n] else str_nat (n div 10) @ [digit_char (n mod 10)])"
  by pat_completeness auto
termination
  by (relation "measure id") auto

declare str_nat.simps [simp del]

definition str_int :: "int \<Rightarrow> string" where
  "str_int i = (if i < 0 then CHR ''-'' # str_nat (nat (- i)) else str_nat (nat i))"

text \<open>
  \<open>os.path.join\<close> on POSIX with two arguments: an absolute second component replaces
  the first; otherwise a slash is inserted unless the first component is empty or
  already ends in one.
\<close>

definition path_join :: "string \<Rightarrow> string \<Rightarrow> string" where
  "path_join a b =
     (if b \<noteq> [] \<and> hd b = CHR ''/'' then b
      else if a = [] \<or> last a = CHR ''/'' then a @ b
      else a @ ''/'' @ b)"

text \<open>The file name \<open>f"chunk_{start_page + 1}_to_{end_page}.pdf"\<close>.\<close>

definition chunk_name :: "int \<Rightarrow> int \<Rightarrow> string" where
  "chunk_name start_page end_page =
     ''chunk_'' @ str_int (start_page + 1) @ ''_to_'' @ str_int end_page @ ''.pdf''"

subsection \<open>The world outside the function\<close>

text \<open>
  Each \<open>print\<close> of the source is one constructor; the formatted values are its arguments.
\<close>

datatype message =
    AttemptingToRead string
  | TotalPagesInInput nat
  | ErrorReading
  | NoPagesExiting
  | WarningAdjusting
  | NoValidSplitPoints
  | CreatedOutputFolder string
  | ProcessingChunk int int
  | AttemptingToWrite string
  | SuccessfullyWrote string
  | ErrorWriting string
  | AllChunksProcessed

datatype handle = NotOpened | IsOpen | IsClosed

text \<open>
  The library: \<open>page_count\<close> is what \<open>fitz.open\<close> followed by \<open>len\<close> gives for a path
  (\<open>None\<close> when either raises), \<open>save_succeeds\<close> says whether \<open>new_doc.save\<close> to a path
  returns (otherwise it raises). A save that raises leaves the disk as it was.
\<close>

record fitz =
  page_count :: "string \<Rightarrow> nat option"
  save_succeeds :: "string \<Rightarrow> bool"

text \<open>
  The state: \<open>doc\<close> is the handle of the input document; \<open>new_docs_open\<close> counts the
  chunk documents created by \<open>fitz.open()\<close> and not yet closed; \<open>dirs\<close> are the
  directories that exist; \<open>files\<close> are the saved files in the order of writing, each with
  the 0-indexed pages of the input copied into it (a later entry for the same path
  replaces an earlier one); \<open>console\<close> holds the printed lines, oldest first.
\<close>

record state =
  doc :: handle
  new_docs_open :: nat
  dirs :: "string list"
  files :: "(string \<times> int list) list"
  console :: "message list"

definition print :: "message \<Rightarrow> state \<Rightarrow> state" where
  "print m s = s\<lparr>console := console s @ [m]\<rparr>"

definition path_exists :: "state \<Rightarrow> string \<Rightarrow> bool" where
  "path_exists s p = (p \<in> set (dirs s) \<or> p \<in> set (map fst (files s)))"

definition makedirs :: "string \<Rightarrow> state \<Rightarrow> state" where
  "makedirs p s = s\<lparr>dirs := p # dirs s\<rparr>"

definition read_file :: "state \<Rightarrow> string \<Rightarrow> int list option" where
  "read_file s p = map_of (rev (files s)) p"

text \<open>Which \<open>return\<close> of the function was taken; the last one is falling off its end.\<close>

datatype exit = ReadError | EmptyDocument | NoValidPoints | WriteError | Success

subsection \<open>Validation of the split points (lines 29 to 32)\<close>

definition in_range :: "int \<Rightarrow> int \<Rightarrow> bool" where
  "in_range total_pages p = (1 \<le> p \<and> p < total_pages)"

definition needs_adjusting :: "int \<Rightarrow> int list \<Rightarrow> bool" where
  "needs_adjusting total_pages split_pages =
     (split_pages \<noteq> [] \<and> (hd split_pages < 1 \<or> last split_pages \<ge> total_pages))"

definition validate_split_pages :: "int \<Rightarrow> int list \<Rightarrow> int list" where
  "validate_split_pages total_pages split_pages =
     (let sorted_pages = sort (remdups split_pages)
      in if needs_adjusting total_pages sorted_pages
         then filter (in_range total_pages) sorted_pages
         else sorted_pages)"

definition make_boundaries :: "int \<Rightarrow> int list \<Rightarrow> int list" where
  "make_boundaries total_pages split_pages = [0] @ split_pages @ [total_pages]"

subsection \<open>The loop over the chunks (lines 44 to 65)\<close>

text \<open>
  The loop runs over \<open>range(len(boundaries) - 1)\<close>, so both reads of \<open>boundaries\<close> are
  in range. \<open>None\<close> means the loop ran to its end; \<open>Some e\<close> means the function
  returned from inside the loop.
\<close>

fun chunk_loop :: "fitz \<Rightarrow> string \<Rightarrow> int list \<Rightarrow> nat list \<Rightarrow> state \<Rightarrow> exit option \<times> state" where
  "chunk_loop lib output_folder boundaries [] s = (None, s)"
| "chunk_loop lib output_folder boundaries (chunk_idx # rest) s =
     (let start_page = boundaries ! chunk_idx;
          end_page = boundaries ! (chunk_idx + 1)
      in if start_page \<ge> end_page then chunk_loop lib output_folder boundaries rest s
         else
           let s1 = print (ProcessingChunk (start_page + 1) end_page) s;
               s2 = s1\<lparr>new_docs_open := new_docs_open s1 + 1\<rparr>;
               new_doc = [start_page .. end_page - 1];
               output_pdf_path = path_join output_folder (chunk_name start_page end_page);
               s3 = print (AttemptingToWrite output_pdf_path) s2
           in if save_succeeds lib output_pdf_path then
                let s4 = s3\<lparr>files := files s3 @ [(output_pdf_path, new_doc)]\<rparr>;
                    s5 = s4\<lparr>new_docs_open := new_docs_open s4 - 1\<rparr>;
                    s6 = print (SuccessfullyWrote output_pdf_path) s5
                in chunk_loop lib output_folder boundaries rest s6
              else
                let s4 = print (ErrorWriting output_pdf_path) s3;
                    s5 = s4\<lparr>new_docs_open := new_docs_open s4 - 1\<rparr>;
                    s6 = s5\<lparr>doc := IsClosed\<rparr>
                in (Some WriteError, s6))"

subsection \<open>The function\<close>

text \<open>
  The branch of line 30 prints the warning and filters the list. In the model the
  filtered list is \<open>validate_split_pages\<close> and the print is the step to \<open>s4\<close>, both under
  the condition \<open>needs_adjusting\<close> of line 30. The result names the \<open>return\<close> taken and
  gives the state of the world at that point.
\<close>

definition split_pdf_by_pages :: "fitz \<Rightarrow> string \<Rightarrow> int list \<Rightarrow> string \<Rightarrow> state \<Rightarrow> exit \<times> state" where
  "split_pdf_by_pages lib input_pdf_path split_pages output_folder s0 =
     (let s1 = print (AttemptingToRead input_pdf_path) s0
      in case page_count lib input_pdf_path of
           None \<Rightarrow> (ReadError, print ErrorReading s1)
         | Some n \<Rightarrow>
             let s2 = s1\<lparr>doc := IsOpen\<rparr>;
                 total_pages = int n;
                 s3 = print (TotalPagesInInput n) s2
             in if total_pages = 0 then (EmptyDocument, print NoPagesExiting s3)
                else
                  let s4 = (if needs_adjusting total_pages (sort (remdups split_pages))
                            then print WarningAdjusting s3 else s3);
                      valid_pages = validate_split_pages total_pages split_pages
                  in if valid_pages = [] then
                       (NoValidPoints, (print NoValidSplitPoints s4)\<lparr>doc := IsClosed\<rparr>)
                     else
                       let s5 = (if \<not> path_exists s4 output_folder
                                 then print (CreatedOutputFolder output_folder)
                                        (makedirs output_folder s4)
                                 else s4);
                           boundaries = make_boundaries total_pages valid_pages
                       in (case chunk_loop lib output_folder boundaries
                                  [0 ..< length boundaries - 1] s5 of
                             (Some e, s6) \<Rightarrow> (e, s6)
                           | (None, s6) \<Rightarrow>
                               (Success, print AllChunksProcessed (s6\<lparr>doc := IsClosed\<rparr>))))"

subsection \<open>Vocabulary for the statements\<close>

text \<open>
  The pairs of adjacent entries of \<open>boundaries\<close> that the loop visits, and those among
  them that pass the test of line 48 (\<open>start_page < end_page\<close>).
\<close>

definition adjacent_pairs :: "int list \<Rightarrow> (int \<times> int) list" where
  "adjacent_pairs boundaries = zip boundaries (tl boundaries)"

definition live :: "(int \<times> int) list \<Rightarrow> (int \<times> int) list" where
  "live ps = filter (\<lambda>(start_page, end_page). start_page < end_page) ps"

definition chunks :: "int list \<Rightarrow> (int \<times> int) list" where
  "chunks boundaries = live (adjacent_pairs boundaries)"

text \<open>What the loop body does with one chunk \<open>(start_page, end_page)\<close>.\<close>

definition chunk_path :: "string \<Rightarrow> int \<times> int \<Rightarrow> string" where
  "chunk_path output_folder c = path_join output_folder (chunk_name (fst c) (snd c))"

definition chunk_file :: "string \<Rightarrow> int \<times> int \<Rightarrow> string \<times> int list" where
  "chunk_file output_folder c = (chunk_path output_folder c, [fst c .. snd c - 1])"

definition written_messages :: "string \<Rightarrow> int \<times> int \<Rightarrow> message list" where
  "written_messages output_folder c =
     [ProcessingChunk (fst c + 1) (snd c), AttemptingToWrite (chunk_path output_folder c),
      SuccessfullyWrote (chunk_path output_folder c)]"

definition failed_messages :: "string \<Rightarrow> int \<times> int \<Rightarrow> message list" where
  "failed_messages output_folder c =
     [ProcessingChunk (fst c + 1) (snd c), AttemptingToWrite (chunk_path output_folder c),
      ErrorWriting (chunk_path output_folder c)]"

definition pairs_at :: "int list \<Rightarrow> nat list \<Rightarrow> (int \<times> int) list" where
  "pairs_at boundaries idxs = map (\<lambda>i. (boundaries ! i, boundaries ! (i + 1))) idxs"

text \<open>The state in which the loop starts (after line 40), for a document of \<open>n\<close> pages.\<close>

definition before_loop :: "string \<Rightarrow> nat \<Rightarrow> int list \<Rightarrow> string \<Rightarrow> state \<Rightarrow> state" where
  "before_loop input_pdf_path n split_pages output_folder s0 =
     (let s3 = print (TotalPagesInInput n)
                 ((print (AttemptingToRead input_pdf_path) s0)\<lparr>doc := IsOpen\<rparr>);
          s4 = (if needs_adjusting (int n) (sort (remdups split_pages))
                then print WarningAdjusting s3 else s3)
      in if \<not> path_exists s4 output_folder
         then print (CreatedOutputFolder output_folder) (makedirs output_folder s4)
         else s4)"

text \<open>The files a run has added, and the paths it has tried to write, in order.\<close>

definition new_files :: "state \<Rightarrow> state \<Rightarrow> (string \<times> int list) list" where
  "new_files s s' = drop (length (files s)) (files s')"

definition write_attempts :: "message list \<Rightarrow> string list" where
  "write_attempts ms = [p. AttemptingToWrite p \<leftarrow> ms]"

text \<open>
  The validation as the specification words it: keep, of the sorted and deduplicated
  points, those with \<open>1 \<le> p < total_pages\<close>, whatever the first and last are.
\<close>

definition keep_valid_points :: "int \<Rightarrow> int list \<Rightarrow> int list" where
  "keep_valid_points total_pages split_pages =
     filter (\<lambda>p. 1 \<le> p \<and> p < total_pages) (sort (remdups split_pages))"

subsection \<open>Example worlds\<close>

text \<open>
  A document of 100 pages at \<open>pdf_to_split.pdf\<close> and an empty one at \<open>empty.pdf\<close>; every
  save succeeds. In \<open>full_disk\<close> the save of the second chunk of the split at 21 and 77
  fails.
\<close>

definition scenario :: fitz where
  "scenario =
     \<lparr>page_count = (\<lambda>p. if p = ''pdf_to_split.pdf'' then Some 100
                         else if p = ''empty.pdf'' then Some 0 else None),
      save_succeeds = (\<lambda>p. True)\<rparr>"

definition full_disk :: fitz where
  "full_disk = scenario\<lparr>save_succeeds := (\<lambda>p. p \<noteq> ''output_chunks/chunk_22_to_77.pdf'')\<rparr>"

definition fresh :: state where
  "fresh = \<lparr>doc = NotOpened, new_docs_open = 0, dirs = [], files = [], console = []\<rparr>"

section \<open>Properties\<close>

subsection \<open>Validation\<close>

lemma sorted_between_hd_last:
  fixes xs :: "int list"
  assumes "sorted xs" "x \<in> set xs"
  shows "hd xs \<le> x \<and> x \<le> last xs"
  using assms
proof (induction xs)
  case Nil
  then show ?case by simp
next
  case (Cons a xs)
  then show ?case by (cases "xs = []") auto
qed

lemma validate_is_filter:
  "validate_split_pages total_pages split_pages =
     filter (in_range total_pages) (sort (remdups split_pages))"
proof (cases "needs_adjusting total_pages (sort (remdups split_pages))")
  case True
  then show ?thesis by (simp add: validate_split_pages_def)
next
  case False
  have "\<forall>p \<in> set (sort (remdups split_pages)). in_range total_pages p"
  proof
    fix p assume p: "p \<in> set (sort (remdups split_pages))"
    then have ne: "sort (remdups split_pages) \<noteq> []" by (metis empty_iff empty_set)
    from p have "hd (sort (remdups split_pages)) \<le> p \<and> p \<le> last (sort (remdups split_pages))"
      by (intro sorted_between_hd_last) simp_all
    with False ne show "in_range total_pages p"
      by (auto simp: needs_adjusting_def in_range_def)
  qed
  then have "filter (in_range total_pages) (sort (remdups split_pages)) = sort (remdups split_pages)"
    by (simp add: filter_id_conv)
  with False show ?thesis by (simp add: validate_split_pages_def)
qed

lemma set_validate:
  "set (validate_split_pages total_pages split_pages) =
     {p \<in> set split_pages. in_range total_pages p}"
  by (auto simp: validate_is_filter)

lemma sorted_validate: "sorted (validate_split_pages total_pages split_pages)"
  by (simp add: validate_is_filter sorted_wrt_filter)

lemma distinct_validate: "distinct (validate_split_pages total_pages split_pages)"
  by (simp add: validate_is_filter)

lemma validate_sorted_list_of_set:
  "validate_split_pages total_pages split_pages =
     sorted_list_of_set {p \<in> set split_pages. in_range total_pages p}"
proof -
  have "finite {p \<in> set split_pages. in_range total_pages p}" by simp
  then show ?thesis
    using sorted_validate distinct_validate set_validate
    by (metis sorted_list_of_set.idem_if_sorted_distinct)
qed

lemma length_validate:
  "length (validate_split_pages total_pages split_pages) =
     card {p \<in> set split_pages. in_range total_pages p}"
  by (metis distinct_card distinct_validate set_validate)

lemma validate_cong:
  "set xs = set ys \<Longrightarrow> validate_split_pages t xs = validate_split_pages t ys"
  by (simp add: validate_sorted_list_of_set)

lemma sort_remdups_cong: "set xs = set ys \<Longrightarrow> sort (remdups xs) = sort (remdups (ys::int list))"
  by (metis sorted_list_of_set_sort_remdups)

lemma strictly_increasing_boundaries:
  assumes "1 \<le> total_pages"
  shows "sorted_wrt (<) (make_boundaries total_pages (validate_split_pages total_pages split_pages))"
proof -
  let ?v = "validate_split_pages total_pages split_pages"
  have "sorted_wrt (<) ?v"
    using sorted_validate distinct_validate by (simp add: strict_sorted_iff)
  moreover have "\<forall>p \<in> set ?v. 0 < p \<and> p < total_pages"
    by (auto simp: set_validate in_range_def)
  ultimately show ?thesis
    using assms by (auto simp: make_boundaries_def sorted_wrt_append)
qed

subsection \<open>File names\<close>

lemma digit_char_inj: "d < 10 \<Longrightarrow> e < 10 \<Longrightarrow> digit_char d = digit_char e \<Longrightarrow> d = e"
proof -
  assume a: "d < 10" "e < 10" "digit_char d = digit_char e"
  have "distinct ''0123456789''" by simp
  moreover have "d < length ''0123456789''" "e < length ''0123456789''" using a by simp_all
  ultimately show "d = e" using a(3) unfolding digit_char_def
    by (simp only: nth_eq_iff_index_eq)
qed

lemma digit_char_in: "d < 10 \<Longrightarrow> digit_char d \<in> set ''0123456789''"
  unfolding digit_char_def by (rule nth_mem) simp

lemma str_nat_digits: "set (str_nat n) \<subseteq> set ''0123456789''"
proof (induction n rule: str_nat.induct)
  case (1 n)
  show ?case
  proof (cases "n < 10")
    case True
    then show ?thesis using digit_char_in [of n] by (subst str_nat.simps) simp
  next
    case False
    have "n mod 10 < 10" by simp
    then have "digit_char (n mod 10) \<in> set ''0123456789''" by (rule digit_char_in)
    with False 1 show ?thesis by (subst str_nat.simps) simp
  qed
qed

lemma str_nat_nonempty: "str_nat n \<noteq> []"
  by (subst str_nat.simps) simp

lemma str_nat_inj: "str_nat a = str_nat b \<Longrightarrow> a = b"
proof (induction a arbitrary: b rule: str_nat.induct)
  case (1 a)
  show ?case
  proof (cases "a < 10")
    case a: True
    show ?thesis
    proof (cases "b < 10")
      case True
      with a 1(2) show ?thesis
        by (simp add: str_nat.simps [of a] str_nat.simps [of b] digit_char_inj)
    next
      case False
      with a 1(2) show ?thesis
        using str_nat_nonempty [of "b div 10"]
        by (simp add: str_nat.simps [of a] str_nat.simps [of b])
    qed
  next
    case a: False
    show ?thesis
    proof (cases "b < 10")
      case True
      with a 1(2) show ?thesis
        using str_nat_nonempty [of "a div 10"]
        by (simp add: str_nat.simps [of a] str_nat.simps [of b])
    next
      case False
      with a 1(2) have eq: "str_nat (a div 10) = str_nat (b div 10)"
        and d: "digit_char (a mod 10) = digit_char (b mod 10)"
        by (simp_all add: str_nat.simps [of a] str_nat.simps [of b])
      from 1(1) [OF a eq] have "a div 10 = b div 10" .
      moreover from d have "a mod 10 = b mod 10" by (intro digit_char_inj) simp_all
      ultimately show ?thesis by (metis div_mult_mod_eq)
    qed
  qed
qed

lemma str_int_inj: "str_int a = str_int b \<Longrightarrow> a = b"
proof -
  assume eq: "str_int a = str_int b"
  have nodash: "\<And>n. hd (str_nat n) \<noteq> CHR ''-''"
  proof -
    fix n
    have "hd (str_nat n) \<in> set (str_nat n)" using str_nat_nonempty by simp
    with str_nat_digits [of n] show "hd (str_nat n) \<noteq> CHR ''-''" by auto
  qed
  show "a = b"
  proof (cases "a < 0")
    case a: True
    show ?thesis
    proof (cases "b < 0")
      case True
      with a eq have "nat (- a) = nat (- b)" by (simp add: str_int_def str_nat_inj)
      with a True show ?thesis by simp
    next
      case False
      with a eq have "CHR ''-'' # str_nat (nat (- a)) = str_nat (nat b)" by (simp add: str_int_def)
      then have "hd (str_nat (nat b)) = CHR ''-''" by (metis list.sel(1))
      with nodash show ?thesis by blast
    qed
  next
    case a: False
    show ?thesis
    proof (cases "b < 0")
      case True
      with a eq have "str_nat (nat a) = CHR ''-'' # str_nat (nat (- b))" by (simp add: str_int_def)
      then have "hd (str_nat (nat a)) = CHR ''-''" by (metis list.sel(1))
      with nodash show ?thesis by blast
    next
      case False
      with a eq have "nat a = nat b" by (simp add: str_int_def str_nat_inj)
      with a False show ?thesis by simp
    qed
  qed
qed

lemma str_int_no_underscore: "CHR ''_'' \<notin> set (str_int a)"
  using str_nat_digits [of "nat a"] str_nat_digits [of "nat (- a)"]
  by (auto simp: str_int_def)

lemma split_at_first:
  "x \<notin> set xs \<Longrightarrow> x \<notin> set xs' \<Longrightarrow> xs @ x # ys = xs' @ x # ys' \<Longrightarrow> xs = xs' \<and> ys = ys'"
proof (induction xs arbitrary: xs')
  case Nil
  then show ?case by (cases xs') auto
next
  case (Cons a xs)
  then show ?case by (cases xs') auto
qed

lemma chunk_name_inj: "chunk_name a b = chunk_name c d \<Longrightarrow> a = c \<and> b = d"
proof -
  assume "chunk_name a b = chunk_name c d"
  then have "str_int (a + 1) @ CHR ''_'' # (''to_'' @ str_int b @ ''.pdf'')
           = str_int (c + 1) @ CHR ''_'' # (''to_'' @ str_int d @ ''.pdf'')"
    by (simp add: chunk_name_def)
  then have "str_int (a + 1) = str_int (c + 1)"
    and "''to_'' @ str_int b @ ''.pdf'' = ''to_'' @ str_int d @ ''.pdf''"
    using split_at_first [OF str_int_no_underscore str_int_no_underscore] by blast+
  then show ?thesis using str_int_inj [of "a + 1" "c + 1"] str_int_inj [of b d] by simp
qed

lemma path_join_chunk_name:
  "path_join folder (chunk_name a b) =
     (if folder = [] \<or> last folder = CHR ''/'' then folder else folder @ ''/'') @ chunk_name a b"
  by (simp add: path_join_def chunk_name_def)

lemma chunk_path_inj:
  "path_join folder (chunk_name a b) = path_join folder (chunk_name c d) \<Longrightarrow> a = c \<and> b = d"
  by (simp only: path_join_chunk_name same_append_eq chunk_name_inj)

subsection \<open>The loop\<close>

lemma pairs_at_all: "pairs_at bs [0 ..< length bs - 1] = adjacent_pairs bs"
  unfolding pairs_at_def adjacent_pairs_def
  by (rule nth_equalityI) (auto simp: nth_tl)

lemma chunk_loop_ok:
  "\<forall>c \<in> set (live (pairs_at bs idxs)). save_succeeds lib (chunk_path folder c) \<Longrightarrow>
   chunk_loop lib folder bs idxs s =
     (None, s\<lparr>files := files s @ map (chunk_file folder) (live (pairs_at bs idxs)),
              console := console s @ concat (map (written_messages folder) (live (pairs_at bs idxs)))\<rparr>)"
proof (induction idxs arbitrary: s)
  case Nil
  then show ?case by (simp add: pairs_at_def live_def)
next
  case (Cons i idxs)
  show ?case
  proof (cases "bs ! i < bs ! (i + 1)")
    case False
    with Cons show ?thesis by (simp add: pairs_at_def live_def)
  next
    case True
    with Cons.prems have ok: "save_succeeds lib (chunk_path folder (bs ! i, bs ! (i + 1)))"
      and rest: "\<forall>c \<in> set (live (pairs_at bs idxs)). save_succeeds lib (chunk_path folder c)"
      by (simp_all add: pairs_at_def live_def)
    show ?thesis
      using True ok Cons.IH [OF rest]
      by (simp add: pairs_at_def live_def Let_def print_def chunk_path_def chunk_file_def
          written_messages_def)
  qed
qed

lemma chunk_loop_fail:
  "\<forall>c \<in> set (live (pairs_at bs pre)). save_succeeds lib (chunk_path folder c) \<Longrightarrow>
   bs ! i < bs ! (i + 1) \<Longrightarrow>
   \<not> save_succeeds lib (chunk_path folder (bs ! i, bs ! (i + 1))) \<Longrightarrow>
   chunk_loop lib folder bs (pre @ i # post) s =
     (Some WriteError,
      s\<lparr>files := files s @ map (chunk_file folder) (live (pairs_at bs pre)),
        console := console s @ concat (map (written_messages folder) (live (pairs_at bs pre)))
                     @ failed_messages folder (bs ! i, bs ! (i + 1)),
        doc := IsClosed\<rparr>)"
proof (induction pre arbitrary: s)
  case Nil
  then show ?case
    by (simp add: pairs_at_def live_def Let_def print_def chunk_path_def failed_messages_def)
next
  case (Cons j pre)
  show ?case
  proof (cases "bs ! j < bs ! (j + 1)")
    case False
    with Cons show ?thesis by (simp add: pairs_at_def live_def)
  next
    case True
    with Cons.prems have ok: "save_succeeds lib (chunk_path folder (bs ! j, bs ! (j + 1)))"
      and rest: "\<forall>c \<in> set (live (pairs_at bs pre)). save_succeeds lib (chunk_path folder c)"
      by (simp_all add: pairs_at_def live_def)
    show ?thesis
      using True ok Cons.IH [OF rest Cons.prems(2) Cons.prems(3)]
      by (simp add: pairs_at_def live_def Let_def print_def chunk_path_def chunk_file_def
          written_messages_def)
  qed
qed

subsection \<open>Chunks of increasing boundaries\<close>

lemma upto_join: "i \<le> j \<Longrightarrow> j \<le> k + 1 \<Longrightarrow> [i .. j - 1] @ [j .. k] = [i .. k]"
proof (cases "j \<le> k")
  case True
  assume "i \<le> j"
  with True show ?thesis by (simp add: upto_split1 [of i j k])
next
  case False
  assume "j \<le> k + 1"
  with False have "j = k + 1" by simp
  then show ?thesis by simp
qed

lemma chunks_cover:
  "sorted bs \<Longrightarrow> bs \<noteq> [] \<Longrightarrow>
   concat (map (\<lambda>c. [fst c .. snd c - 1]) (chunks bs)) = [hd bs .. last bs - 1]"
proof (induction bs)
  case Nil
  then show ?case by simp
next
  case (Cons a bs)
  show ?case
  proof (cases bs)
    case Nil
    then show ?thesis by (simp add: chunks_def adjacent_pairs_def live_def)
  next
    case (Cons b rest)
    with Cons.prems have ab: "a \<le> b" and sorted: "sorted bs" by simp_all
    have "last bs \<in> set bs" using Cons by simp
    with sorted have "hd bs \<le> last bs" using sorted_between_hd_last by blast
    with Cons have "b \<le> last bs" by simp
    from Cons.IH [OF sorted] Cons
    have IH: "concat (map (\<lambda>c. [fst c .. snd c - 1]) (chunks bs)) = [b .. last bs - 1]"
      by simp
    have step: "chunks (a # bs) = (if a < b then (a, b) # chunks bs else chunks bs)"
      using Cons by (simp add: chunks_def adjacent_pairs_def live_def)
    have l: "last (a # bs) = last bs" and h: "hd (a # bs) = a" using Cons by simp_all
    show ?thesis
    proof (cases "a < b")
      case True
      with step have "concat (map (\<lambda>c. [fst c .. snd c - 1]) (chunks (a # bs)))
                     = [a .. b - 1] @ [b .. last bs - 1]"
        by (simp add: IH)
      also have "\<dots> = [a .. last bs - 1]"
        using ab \<open>b \<le> last bs\<close> by (intro upto_join) simp_all
      finally show ?thesis by (simp only: l h)
    next
      case False
      with ab have "a = b" by simp
      with step False have "concat (map (\<lambda>c. [fst c .. snd c - 1]) (chunks (a # bs)))
                     = [a .. last bs - 1]"
        by (simp add: IH)
      then show ?thesis by (simp only: l h)
    qed
  qed
qed

lemma adjacent_increasing:
  assumes "sorted_wrt (<) bs" "c \<in> set (adjacent_pairs bs)"
  shows "fst c < snd c"
proof -
  from assms(2) obtain i where i: "i < length bs - 1" "c = (bs ! i, tl bs ! i)"
    unfolding adjacent_pairs_def by (auto simp: set_zip)
  then have "tl bs ! i = bs ! Suc i" by (simp add: nth_tl)
  moreover from i have "bs ! i < bs ! Suc i"
    using sorted_wrt_nth_less [OF assms(1), of i "Suc i"] by simp
  ultimately show ?thesis using i by simp
qed

lemma chunks_all: "sorted_wrt (<) bs \<Longrightarrow> chunks bs = adjacent_pairs bs"
  unfolding chunks_def live_def
  by (rule filter_True) (auto dest: adjacent_increasing)

lemma length_adjacent_pairs: "length (adjacent_pairs bs) = length bs - 1"
  by (simp add: adjacent_pairs_def)

lemma distinct_adjacent_pairs: "distinct bs \<Longrightarrow> distinct (adjacent_pairs bs)"
proof -
  assume d: "distinct bs"
  have "map fst (adjacent_pairs bs) = butlast bs"
    unfolding adjacent_pairs_def
    by (rule nth_equalityI) (auto simp: nth_butlast)
  moreover from d have "distinct (butlast bs)" by (rule distinct_butlast)
  ultimately show ?thesis by (metis distinct_map)
qed

lemma pairs_at_take: "k \<le> length bs - 1 \<Longrightarrow> pairs_at bs [0 ..< k] = take k (adjacent_pairs bs)"
  unfolding pairs_at_def adjacent_pairs_def
  by (rule nth_equalityI) (auto simp: nth_tl)

lemma chunk_path_distinct:
  "distinct cs \<Longrightarrow> distinct (map (chunk_path folder) cs)"
  unfolding distinct_map
  by (auto simp: inj_on_def chunk_path_def dest!: chunk_path_inj intro: prod_eqI)

subsection \<open>Runs of the whole function\<close>

lemma run_unfold:
  assumes "page_count lib path = Some n" "1 \<le> n" "validate_split_pages (int n) sp \<noteq> []"
  shows "split_pdf_by_pages lib path sp folder s0 =
     (case chunk_loop lib folder (make_boundaries (int n) (validate_split_pages (int n) sp))
             [0 ..< length (make_boundaries (int n) (validate_split_pages (int n) sp)) - 1]
             (before_loop path n sp folder s0) of
        (Some e, s6) \<Rightarrow> (e, s6)
      | (None, s6) \<Rightarrow> (Success, print AllChunksProcessed (s6\<lparr>doc := IsClosed\<rparr>)))"
  using assms by (simp add: split_pdf_by_pages_def before_loop_def Let_def)

lemma before_loop_files [simp]: "files (before_loop path n sp folder s0) = files s0"
  by (simp add: before_loop_def Let_def print_def makedirs_def)

lemma before_loop_doc [simp]: "doc (before_loop path n sp folder s0) = IsOpen"
  by (simp add: before_loop_def Let_def print_def makedirs_def)

lemma before_loop_new_docs [simp]:
  "new_docs_open (before_loop path n sp folder s0) = new_docs_open s0"
  by (simp add: before_loop_def Let_def print_def makedirs_def)

lemma write_attempts_append [simp]:
  "write_attempts (xs @ ys) = write_attempts xs @ write_attempts ys"
  by (simp add: write_attempts_def)

lemma before_loop_attempts [simp]:
  "write_attempts (console (before_loop path n sp folder s0)) = write_attempts (console s0)"
  by (simp add: before_loop_def Let_def print_def makedirs_def write_attempts_def)

lemma write_attempts_written [simp]:
  "write_attempts (concat (map (written_messages folder) cs)) = map (chunk_path folder) cs"
  by (induction cs) (simp_all add: write_attempts_def written_messages_def)

lemma write_attempts_failed [simp]:
  "write_attempts (failed_messages folder c) = [chunk_path folder c]"
  by (simp add: write_attempts_def failed_messages_def)

lemma run_success:
  assumes "page_count lib path = Some n" "1 \<le> n" "validate_split_pages (int n) sp \<noteq> []"
    and "\<forall>c \<in> set (chunks (make_boundaries (int n) (validate_split_pages (int n) sp))).
           save_succeeds lib (chunk_path folder c)"
  shows "split_pdf_by_pages lib path sp folder s0 =
     (Success,
      (before_loop path n sp folder s0)
        \<lparr>files := files s0 @ map (chunk_file folder)
                    (chunks (make_boundaries (int n) (validate_split_pages (int n) sp))),
         console := console (before_loop path n sp folder s0)
                    @ concat (map (written_messages folder)
                        (chunks (make_boundaries (int n) (validate_split_pages (int n) sp))))
                    @ [AllChunksProcessed],
         doc := IsClosed\<rparr>)"
proof -
  let ?bs = "make_boundaries (int n) (validate_split_pages (int n) sp)"
  have live: "live (pairs_at ?bs [0 ..< length ?bs - 1]) = chunks ?bs"
    by (simp only: pairs_at_all chunks_def)
  from assms(4) have "\<forall>c \<in> set (live (pairs_at ?bs [0 ..< length ?bs - 1])).
      save_succeeds lib (chunk_path folder c)"
    by (simp only: live)
  from chunk_loop_ok [OF this, of "before_loop path n sp folder s0"]
  show ?thesis
    by (simp only: run_unfold [OF assms(1-3)] live) (simp add: print_def)
qed

lemma chunk_loop_completes:
  "chunk_loop lib folder bs idxs s = (None, s') \<Longrightarrow>
   \<forall>c \<in> set (live (pairs_at bs idxs)). save_succeeds lib (chunk_path folder c)"
proof (induction idxs arbitrary: s)
  case Nil
  then show ?case by (simp add: pairs_at_def live_def)
next
  case (Cons i idxs)
  show ?case
  proof (cases "bs ! i < bs ! (i + 1)")
    case False
    with Cons show ?thesis by (simp add: pairs_at_def live_def)
  next
    case True
    show ?thesis
    proof (cases "save_succeeds lib (chunk_path folder (bs ! i, bs ! (i + 1)))")
      case False
      with True Cons.prems show ?thesis by (simp add: Let_def chunk_path_def)
    next
      case ok: True
      with True Cons.prems obtain s1 where "chunk_loop lib folder bs idxs s1 = (None, s')"
        by (simp add: Let_def chunk_path_def)
      from Cons.IH [OF this] ok True show ?thesis by (simp add: pairs_at_def live_def)
    qed
  qed
qed

lemma chunk_loop_exit:
  "chunk_loop lib folder bs idxs s = (Some e, s') \<Longrightarrow> e = WriteError"
proof (induction idxs arbitrary: s)
  case Nil
  then show ?case by simp
next
  case (Cons i idxs)
  then show ?case by (auto simp: Let_def split: if_splits)
qed

lemma success_saves:
  assumes "page_count lib path = Some n" "1 \<le> n" "validate_split_pages (int n) sp \<noteq> []"
    and "fst (split_pdf_by_pages lib path sp folder s0) = Success"
  shows "\<forall>c \<in> set (chunks (make_boundaries (int n) (validate_split_pages (int n) sp))).
           save_succeeds lib (chunk_path folder c)"
proof -
  let ?bs = "make_boundaries (int n) (validate_split_pages (int n) sp)"
  obtain e s' where r: "chunk_loop lib folder ?bs [0 ..< length ?bs - 1]
      (before_loop path n sp folder s0) = (e, s')" by (cases "chunk_loop lib folder ?bs [0 ..< length ?bs - 1]
      (before_loop path n sp folder s0)")
  with assms(4) have "e = None"
    using chunk_loop_exit [of lib folder ?bs "[0 ..< length ?bs - 1]" "before_loop path n sp folder s0" _ s']
    by (cases e) (auto simp: run_unfold [OF assms(1-3)])
  with r chunk_loop_completes have "\<forall>c \<in> set (live (pairs_at ?bs [0 ..< length ?bs - 1])).
      save_succeeds lib (chunk_path folder c)" by blast
  then show ?thesis by (simp only: pairs_at_all chunks_def)
qed

lemma run_fail:
  assumes "page_count lib path = Some n" "1 \<le> n" "validate_split_pages (int n) sp \<noteq> []"
    and cs: "cs = chunks (make_boundaries (int n) (validate_split_pages (int n) sp))"
    and k: "k < length cs"
    and ok: "\<forall>j < k. save_succeeds lib (chunk_path folder (cs ! j))"
    and bad: "\<not> save_succeeds lib (chunk_path folder (cs ! k))"
  shows "split_pdf_by_pages lib path sp folder s0 =
     (WriteError,
      (before_loop path n sp folder s0)
        \<lparr>files := files s0 @ map (chunk_file folder) (take k cs),
         console := console (before_loop path n sp folder s0)
                    @ concat (map (written_messages folder) (take k cs))
                    @ failed_messages folder (cs ! k),
         doc := IsClosed\<rparr>)"
proof -
  let ?bs = "make_boundaries (int n) (validate_split_pages (int n) sp)"
  let ?m = "length ?bs - 1"
  have inc: "sorted_wrt (<) ?bs" using assms(2) by (intro strictly_increasing_boundaries) simp
  then have all: "cs = adjacent_pairs ?bs" using cs by (simp add: chunks_all)
  with k have km: "k < ?m" by (simp add: length_adjacent_pairs)
  then have idxs: "[0 ..< ?m] = [0 ..< k] @ k # [Suc k ..< ?m]"
    by (metis less_imp_add_positive upt_add_eq_append upt_conv_Cons zero_le add.commute le_add1 less_eq_nat.simps(1) less_imp_le_nat)
  have pre: "pairs_at ?bs [0 ..< k] = take k cs"
    using km all by (simp add: pairs_at_take)
  have "\<forall>c \<in> set (take k cs). fst c < snd c"
    using inc all by (auto dest: in_set_takeD adjacent_increasing)
  then have live_pre: "live (pairs_at ?bs [0 ..< k]) = take k cs"
    unfolding pre live_def by (intro filter_True) auto
  have at_k: "cs ! k = (?bs ! k, ?bs ! (k + 1))"
    using km all by (simp add: adjacent_pairs_def nth_tl)
  have lt: "?bs ! k < ?bs ! (k + 1)"
    using sorted_wrt_nth_less [OF inc, of k "k + 1"] km by simp
  have pre_ok: "\<forall>c \<in> set (live (pairs_at ?bs [0 ..< k])). save_succeeds lib (chunk_path folder c)"
  proof
    fix c assume "c \<in> set (live (pairs_at ?bs [0 ..< k]))"
    then have "c \<in> set (take k cs)" by (simp only: live_pre)
    then obtain j where "j < k" "c = cs ! j"
      using k by (auto simp: in_set_conv_nth)
    with ok show "save_succeeds lib (chunk_path folder c)" by simp
  qed
  from bad have bad': "\<not> save_succeeds lib (chunk_path folder (?bs ! k, ?bs ! (k + 1)))"
    unfolding at_k .
  from chunk_loop_fail [OF pre_ok lt bad', of "[Suc k ..< ?m]" "before_loop path n sp folder s0"]
  show ?thesis
    by (simp only: run_unfold [OF assms(1-3)] idxs [symmetric] live_pre at_k [symmetric])
       simp
qed

section \<open>The claims\<close>

lemma not_adjusting_in_range:
  assumes "\<not> needs_adjusting total_pages (sort (remdups split_pages))"
  shows "\<forall>p \<in> set split_pages. in_range total_pages p"
proof
  fix p assume "p \<in> set split_pages"
  then have "p \<in> set (filter (in_range total_pages) (sort (remdups split_pages)))"
    using assms validate_is_filter [of total_pages split_pages]
    by (simp add: validate_split_pages_def)
  then show "in_range total_pages p" by simp
qed

lemma adjusting_out_of_range:
  assumes "needs_adjusting total_pages (sort (remdups split_pages))"
  shows "\<exists>p \<in> set split_pages. \<not> in_range total_pages p"
proof -
  let ?xs = "sort (remdups split_pages)"
  from assms have ne: "?xs \<noteq> []" and "hd ?xs < 1 \<or> last ?xs \<ge> total_pages"
    by (simp_all add: needs_adjusting_def)
  then have "\<not> in_range total_pages (hd ?xs) \<or> \<not> in_range total_pages (last ?xs)"
    by (auto simp: in_range_def)
  moreover from ne have "hd ?xs \<in> set ?xs" "last ?xs \<in> set ?xs"
    by (rule hd_in_set, rule last_in_set)
  then have "hd ?xs \<in> set split_pages" "last ?xs \<in> set split_pages" by simp_all
  ultimately show ?thesis by blast
qed

text \<open>
  C9. The guarded filter of lines 30 to 32 looks only at the first and last element of
  the sorted, deduplicated list and filters only when one of them is out of range. For
  every \<open>total_pages \<ge> 1\<close> and every input it returns what filtering unconditionally
  returns, and the guard fires exactly when some point is out of range: on a sorted list,
  checking the two ends is checking every element.
\<close>

theorem validation_equivalence:
  assumes "1 \<le> total_pages"
  shows "validate_split_pages total_pages split_pages = keep_valid_points total_pages split_pages
       \<and> (needs_adjusting total_pages (sort (remdups split_pages))
            \<longleftrightarrow> (\<exists>p \<in> set split_pages. \<not> (1 \<le> p \<and> p < total_pages)))"
proof
  have "in_range total_pages = (\<lambda>p. 1 \<le> p \<and> p < total_pages)"
    by (simp add: in_range_def fun_eq_iff)
  then show "validate_split_pages total_pages split_pages
               = keep_valid_points total_pages split_pages"
    by (simp add: validate_is_filter keep_valid_points_def)
next
  show "needs_adjusting total_pages (sort (remdups split_pages))
          \<longleftrightarrow> (\<exists>p \<in> set split_pages. \<not> (1 \<le> p \<and> p < total_pages))"
    using not_adjusting_in_range [of total_pages split_pages]
      adjusting_out_of_range [of total_pages split_pages]
    by (auto simp: in_range_def)
qed

theorem validation_equivalence_witness:
  "(1::int) \<le> 100
   \<and> validate_split_pages 100 [77, 21, 21, 0, 100] = [21, 77]
   \<and> needs_adjusting 100 (sort (remdups [77, 21, 21, 0, 100]))"
proof -
  have h: "(1::int) \<le> 100" by simp
  show ?thesis
    using h validation_equivalence [OF h, of "[77, 21, 21, 0, 100]"]
    by (simp add: keep_valid_points_def)
qed

text \<open>
  C7. For every \<open>total_pages \<ge> 1\<close> and every input with at least one point in range,
  the list \<open>boundaries\<close> of line 43 (0, then the sorted valid points, then
  \<open>total_pages\<close>) is non-decreasing and has as many entries as there are valid points,
  plus 2.
\<close>

theorem boundaries_invariant:
  assumes "1 \<le> total_pages"
    and "\<exists>p \<in> set split_pages. 1 \<le> p \<and> p < total_pages"
  shows "sorted (make_boundaries total_pages (validate_split_pages total_pages split_pages))
       \<and> length (make_boundaries total_pages (validate_split_pages total_pages split_pages))
           = card {p \<in> set split_pages. 1 \<le> p \<and> p < total_pages} + 2"
proof
  from strictly_increasing_boundaries [OF assms(1)]
  show "sorted (make_boundaries total_pages (validate_split_pages total_pages split_pages))"
    by (rule strict_sorted_imp_sorted)
next
  have "length (validate_split_pages total_pages split_pages)
          = card {p \<in> set split_pages. 1 \<le> p \<and> p < total_pages}"
    using length_validate [of total_pages split_pages] by (simp add: in_range_def)
  then show "length (make_boundaries total_pages (validate_split_pages total_pages split_pages))
           = card {p \<in> set split_pages. 1 \<le> p \<and> p < total_pages} + 2"
    by (simp add: make_boundaries_def)
qed

theorem boundaries_invariant_witness:
  "(1::int) \<le> 100 \<and> (\<exists>p \<in> set [77, 21, 21, 0, 100 :: int]. 1 \<le> p \<and> p < 100)
   \<and> sorted (make_boundaries 100 (validate_split_pages 100 [77, 21, 21, 0, 100]))
   \<and> length (make_boundaries 100 (validate_split_pages 100 [77, 21, 21, 0, 100])) = 4"
proof -
  have h1: "(1::int) \<le> 100" by simp
  have h2: "\<exists>p \<in> set [77, 21, 21, 0, 100 :: int]. 1 \<le> p \<and> p < 100" by simp
  have c: "{p \<in> set [77, 21, 21, 0, 100 :: int]. 1 \<le> p \<and> p < 100} = {21, 77}" by auto
  from boundaries_invariant [OF h1 h2]
  have "sorted (make_boundaries 100 (validate_split_pages 100 [77, 21, 21, 0, 100]))
      \<and> length (make_boundaries 100 (validate_split_pages 100 [77, 21, 21, 0, 100]))
          = card {21, 77 :: int} + 2"
    by (simp only: c)
  with h1 h2 show ?thesis by simp
qed

text \<open>
  C5. Two inputs with the same set of integers, in any order and with any duplicates,
  give the same run: the same exit, files, directories, handles and console. In
  particular an input gives the same run as its sorted, deduplicated version. This holds
  whatever the document is, so in particular when it has at least one page.
\<close>

theorem normalization_idempotence:
  assumes "set xs = set ys"
  shows "split_pdf_by_pages lib input_pdf_path xs output_folder s0
           = split_pdf_by_pages lib input_pdf_path ys output_folder s0
       \<and> split_pdf_by_pages lib input_pdf_path xs output_folder s0
           = split_pdf_by_pages lib input_pdf_path (sort (remdups xs)) output_folder s0"
proof -
  have same: "\<And>as bs. set as = set bs \<Longrightarrow>
      split_pdf_by_pages lib input_pdf_path as output_folder s0
        = split_pdf_by_pages lib input_pdf_path bs output_folder s0"
  proof -
    fix as bs :: "int list"
    assume eq: "set as = set bs"
    then have a: "sort (remdups as) = sort (remdups bs)" by (rule sort_remdups_cong)
    from eq have b: "\<And>t. validate_split_pages t as = validate_split_pages t bs"
      by (rule validate_cong)
    show "split_pdf_by_pages lib input_pdf_path as output_folder s0
        = split_pdf_by_pages lib input_pdf_path bs output_folder s0"
      by (simp only: split_pdf_by_pages_def a b)
  qed
  have "set xs = set (sort (remdups xs))" by simp
  with same [OF assms] same show ?thesis by blast
qed

theorem normalization_idempotence_witness:
  "set [77, 21, 21 :: int] = set [21, 77]
   \<and> split_pdf_by_pages scenario ''pdf_to_split.pdf'' [77, 21, 21] ''output_chunks'' fresh
       = split_pdf_by_pages scenario ''pdf_to_split.pdf'' [21, 77] ''output_chunks'' fresh"
proof -
  have h: "set [77, 21, 21 :: int] = set [21, 77]" by auto
  show ?thesis
    using h normalization_idempotence [OF h, of scenario "''pdf_to_split.pdf''" "''output_chunks''" fresh]
    by simp
qed

lemma chunk_loop_returns_closed:
  "chunk_loop lib folder bs idxs s = (Some e, s') \<Longrightarrow> doc s' = IsClosed"
proof (induction idxs arbitrary: s)
  case Nil
  then show ?case by simp
next
  case (Cons i idxs)
  then show ?case by (auto simp: Let_def print_def split: if_splits)
qed

lemma other_exits_release_input:
  assumes "r = split_pdf_by_pages lib path sp folder s0"
  shows "(page_count lib path = None \<longrightarrow> doc (snd r) = doc s0)
       \<and> (page_count lib path = Some n \<and> 1 \<le> n \<longrightarrow> doc (snd r) = IsClosed)"
proof (intro conjI impI)
  assume "page_count lib path = None"
  with assms show "doc (snd r) = doc s0"
    by (simp add: split_pdf_by_pages_def print_def)
next
  assume a: "page_count lib path = Some n \<and> 1 \<le> n"
  show "doc (snd r) = IsClosed"
  proof (cases "validate_split_pages (int n) sp = []")
    case True
    with a assms show ?thesis by (simp add: split_pdf_by_pages_def print_def Let_def)
  next
    case False
    let ?bs = "make_boundaries (int n) (validate_split_pages (int n) sp)"
    obtain e s' where l: "chunk_loop lib folder ?bs [0 ..< length ?bs - 1]
        (before_loop path n sp folder s0) = (e, s')"
      by (cases "chunk_loop lib folder ?bs [0 ..< length ?bs - 1]
        (before_loop path n sp folder s0)")
    show ?thesis
    proof (cases e)
      case None
      with l a False assms show ?thesis by (simp add: run_unfold print_def)
    next
      case (Some x)
      with l chunk_loop_returns_closed have "doc s' = IsClosed" by blast
      with Some l a False assms show ?thesis by (simp add: run_unfold)
    qed
  qed
qed

text \<open>
  C6. A document with no pages produces no file, and so does a document with at least
  one page when every split point is out of range. In both cases the function returns
  before line 38: the files and the directories on disk are as they were, so the output
  folder has not been created.
\<close>

theorem no_op_conditions:
  assumes "r = split_pdf_by_pages lib input_pdf_path split_pages output_folder s0"
  shows "(page_count lib input_pdf_path = Some 0 \<longrightarrow>
            fst r = EmptyDocument \<and> files (snd r) = files s0 \<and> dirs (snd r) = dirs s0)
       \<and> (page_count lib input_pdf_path = Some n \<and> 1 \<le> n
            \<and> (\<forall>p \<in> set split_pages. \<not> (1 \<le> p \<and> p < int n)) \<longrightarrow>
            fst r = NoValidPoints \<and> files (snd r) = files s0 \<and> dirs (snd r) = dirs s0)"
proof (intro conjI impI)
  assume z: "page_count lib input_pdf_path = Some 0"
  with assms show "fst r = EmptyDocument" by (simp add: split_pdf_by_pages_def)
  from z assms show "files (snd r) = files s0" by (simp add: split_pdf_by_pages_def print_def)
  from z assms show "dirs (snd r) = dirs s0" by (simp add: split_pdf_by_pages_def print_def)
next
  assume a: "page_count lib input_pdf_path = Some n \<and> 1 \<le> n
            \<and> (\<forall>p \<in> set split_pages. \<not> (1 \<le> p \<and> p < int n))"
  then have "set (validate_split_pages (int n) split_pages) = {}"
    by (auto simp: set_validate in_range_def)
  then have e: "validate_split_pages (int n) split_pages = []" by simp
  from a e assms show "fst r = NoValidPoints"
    by (simp add: split_pdf_by_pages_def Let_def)
  from a e assms show "files (snd r) = files s0"
    by (simp add: split_pdf_by_pages_def Let_def print_def)
  from a e assms show "dirs (snd r) = dirs s0"
    by (simp add: split_pdf_by_pages_def Let_def print_def)
qed

theorem no_op_conditions_witness:
  "page_count scenario ''empty.pdf'' = Some 0
   \<and> fst (split_pdf_by_pages scenario ''empty.pdf'' [21, 77] ''output_chunks'' fresh)
       = EmptyDocument
   \<and> files (snd (split_pdf_by_pages scenario ''empty.pdf'' [21, 77] ''output_chunks'' fresh)) = []
   \<and> dirs (snd (split_pdf_by_pages scenario ''empty.pdf'' [21, 77] ''output_chunks'' fresh)) = []
   \<and> page_count scenario ''pdf_to_split.pdf'' = Some 100 \<and> (1::nat) \<le> 100
   \<and> \<not> (1 \<le> (0::int) \<and> (0::int) < int 100) \<and> \<not> (1 \<le> (100::int) \<and> (100::int) < int 100)
   \<and> fst (split_pdf_by_pages scenario ''pdf_to_split.pdf'' [0, 100] ''output_chunks'' fresh)
       = NoValidPoints
   \<and> files (snd (split_pdf_by_pages scenario ''pdf_to_split.pdf'' [0, 100] ''output_chunks'' fresh))
       = []
   \<and> dirs (snd (split_pdf_by_pages scenario ''pdf_to_split.pdf'' [0, 100] ''output_chunks'' fresh))
       = []"
proof -
  have h0: "page_count scenario ''empty.pdf'' = Some 0" by (simp add: scenario_def)
  have h1: "page_count scenario ''pdf_to_split.pdf'' = Some 100 \<and> (1::nat) \<le> 100
      \<and> (\<forall>p \<in> set [0, 100 :: int]. \<not> (1 \<le> p \<and> p < int 100))"
    by (simp add: scenario_def)
  from no_op_conditions [where lib = scenario and input_pdf_path = "''empty.pdf''"
      and split_pages = "[21, 77]" and output_folder = "''output_chunks''" and ?s0.0 = fresh,
      OF refl] h0
  have a: "fst (split_pdf_by_pages scenario ''empty.pdf'' [21, 77] ''output_chunks'' fresh)
       = EmptyDocument
   \<and> files (snd (split_pdf_by_pages scenario ''empty.pdf'' [21, 77] ''output_chunks'' fresh))
       = files fresh
   \<and> dirs (snd (split_pdf_by_pages scenario ''empty.pdf'' [21, 77] ''output_chunks'' fresh))
       = dirs fresh"
    by blast
  from no_op_conditions [where lib = scenario and input_pdf_path = "''pdf_to_split.pdf''"
      and split_pages = "[0, 100]" and output_folder = "''output_chunks''" and ?s0.0 = fresh
      and n = 100, OF refl] h1
  have b: "fst (split_pdf_by_pages scenario ''pdf_to_split.pdf'' [0, 100] ''output_chunks'' fresh)
       = NoValidPoints
   \<and> files (snd (split_pdf_by_pages scenario ''pdf_to_split.pdf'' [0, 100] ''output_chunks'' fresh))
       = files fresh
   \<and> dirs (snd (split_pdf_by_pages scenario ''pdf_to_split.pdf'' [0, 100] ''output_chunks'' fresh))
       = dirs fresh"
    by blast
  from h0 h1 a b show ?thesis by (simp add: fresh_def)
qed

text \<open>
  C2. The specification says that the input document, once opened, is closed on every
  exit, the empty-document exit included. Here the function is run on the empty document: it
  returns at line 26 with the handle still open. (Every other exit closes it, see
  \<open>other_exits_release_input\<close>.)
\<close>

theorem empty_document_leaves_input_open:
  "split_pdf_by_pages scenario ''empty.pdf'' [21, 77] ''output_chunks'' fresh
     = (EmptyDocument,
        \<lparr>doc = IsOpen, new_docs_open = 0, dirs = [], files = [],
         console = [AttemptingToRead ''empty.pdf'', TotalPagesInInput 0, NoPagesExiting]\<rparr>)"
  by (simp add: split_pdf_by_pages_def scenario_def fresh_def print_def)

lemma valid_nonempty:
  "(\<exists>p \<in> set sp. 1 \<le> p \<and> p < t) \<Longrightarrow> validate_split_pages t sp \<noteq> []"
proof -
  assume "\<exists>p \<in> set sp. 1 \<le> p \<and> p < t"
  then have "set (validate_split_pages t sp) \<noteq> {}"
    by (auto simp: set_validate in_range_def)
  then show ?thesis by auto
qed

text \<open>
  C3. For a document of \<open>total_pages \<ge> 1\<close> pages and every input, the points kept by
  lines 29 to 32 are exactly the input points with \<open>1 \<le> p < total_pages\<close>, sorted: no
  point with \<open>p < 1\<close> or \<open>p \<ge> total_pages\<close> is among them. Out-of-range points are dropped
  and the run goes on: when no point is left it returns as a no-op, otherwise it runs the
  loop of lines 44 to 65 on the boundaries 0, the valid points in order, \<open>total_pages\<close>.
\<close>

theorem bounds_filtering:
  assumes "page_count lib input_pdf_path = Some n" and "1 \<le> n"
    and "total_pages = int n"
    and "valid = {p \<in> set split_pages. 1 \<le> p \<and> p < total_pages}"
    and "r = split_pdf_by_pages lib input_pdf_path split_pages output_folder s0"
  shows "validate_split_pages total_pages split_pages = sorted_list_of_set valid
       \<and> (\<forall>p. p < 1 \<or> p \<ge> total_pages \<longrightarrow>
             p \<notin> set (validate_split_pages total_pages split_pages))
       \<and> (valid = {} \<longrightarrow> fst r = NoValidPoints)
       \<and> (valid \<noteq> {} \<longrightarrow>
            r = (case chunk_loop lib output_folder (0 # sorted_list_of_set valid @ [total_pages])
                        [0 ..< length (0 # sorted_list_of_set valid @ [total_pages]) - 1]
                        (before_loop input_pdf_path n split_pages output_folder s0) of
                   (Some e, s6) \<Rightarrow> (e, s6)
                 | (None, s6) \<Rightarrow> (Success, print AllChunksProcessed (s6\<lparr>doc := IsClosed\<rparr>))))"
proof -
  have v: "validate_split_pages total_pages split_pages = sorted_list_of_set valid"
    using assms(4) by (simp add: validate_sorted_list_of_set in_range_def)
  have out: "\<forall>p. p < 1 \<or> p \<ge> total_pages \<longrightarrow>
             p \<notin> set (validate_split_pages total_pages split_pages)"
    by (auto simp: set_validate in_range_def)
  have empty: "valid = {} \<longrightarrow> fst r = NoValidPoints"
  proof
    assume "valid = {}"
    with v have "validate_split_pages (int n) split_pages = []" using assms(3) by simp
    with assms show "fst r = NoValidPoints" by (simp add: split_pdf_by_pages_def Let_def)
  qed
  have loop: "valid \<noteq> {} \<longrightarrow>
            r = (case chunk_loop lib output_folder (0 # sorted_list_of_set valid @ [total_pages])
                        [0 ..< length (0 # sorted_list_of_set valid @ [total_pages]) - 1]
                        (before_loop input_pdf_path n split_pages output_folder s0) of
                   (Some e, s6) \<Rightarrow> (e, s6)
                 | (None, s6) \<Rightarrow> (Success, print AllChunksProcessed (s6\<lparr>doc := IsClosed\<rparr>)))"
  proof
    assume "valid \<noteq> {}"
    with assms(4) have "\<exists>p \<in> set split_pages. 1 \<le> p \<and> p < int n" using assms(3) by auto
    then have ne: "validate_split_pages (int n) split_pages \<noteq> []" by (rule valid_nonempty)
    have bs: "make_boundaries (int n) (validate_split_pages (int n) split_pages)
                = 0 # sorted_list_of_set valid @ [total_pages]"
      using v assms(3) by (simp add: make_boundaries_def)
    from run_unfold [OF assms(1) assms(2) ne, of output_folder s0]
    show "r = (case chunk_loop lib output_folder (0 # sorted_list_of_set valid @ [total_pages])
                        [0 ..< length (0 # sorted_list_of_set valid @ [total_pages]) - 1]
                        (before_loop input_pdf_path n split_pages output_folder s0) of
                   (Some e, s6) \<Rightarrow> (e, s6)
                 | (None, s6) \<Rightarrow> (Success, print AllChunksProcessed (s6\<lparr>doc := IsClosed\<rparr>)))"
      unfolding bs assms(5) .
  qed
  from v out empty loop show ?thesis by blast
qed

theorem bounds_filtering_witness:
  "page_count scenario ''pdf_to_split.pdf'' = Some 100 \<and> (1::nat) \<le> 100
   \<and> validate_split_pages (int 100) [150, 77, 0, 21, 100, - 3] = [21, 77]
   \<and> 0 \<notin> set (validate_split_pages (int 100) [150, 77, 0, 21, 100, - 3])
   \<and> 100 \<notin> set (validate_split_pages (int 100) [150, 77, 0, 21, 100, - 3])"
proof -
  have h1: "page_count scenario ''pdf_to_split.pdf'' = Some 100" by (simp add: scenario_def)
  have h2: "(1::nat) \<le> 100" by simp
  have c: "{p \<in> set [150, 77, 0, 21, 100, - 3 :: int]. 1 \<le> p \<and> p < int 100} = {21, 77}"
    by auto
  from bounds_filtering [OF h1 h2 refl refl refl, of "[150, 77, 0, 21, 100, - 3]"]
  have "validate_split_pages (int 100) [150, 77, 0, 21, 100, - 3] = sorted_list_of_set {21, 77}
      \<and> (\<forall>p. p < 1 \<or> p \<ge> int 100 \<longrightarrow>
            p \<notin> set (validate_split_pages (int 100) [150, 77, 0, 21, 100, - 3]))"
    unfolding c by blast
  then have "validate_split_pages (int 100) [150, 77, 0, 21, 100, - 3] = [21, 77]"
    and "0 \<notin> set (validate_split_pages (int 100) [150, 77, 0, 21, 100, - 3])"
    and "100 \<notin> set (validate_split_pages (int 100) [150, 77, 0, 21, 100, - 3])"
    by simp_all
  with h1 h2 show ?thesis by blast
qed

lemmas run_eval =
  split_pdf_by_pages_def scenario_def full_disk_def fresh_def print_def Let_def
  validate_split_pages_def needs_adjusting_def in_range_def make_boundaries_def
  path_exists_def makedirs_def path_join_def chunk_name_def str_int_def str_nat.simps
  digit_char_def new_files_def

lemma new_files_append [simp]: "files s' = files s @ xs \<Longrightarrow> new_files s s' = xs"
  by (simp add: new_files_def)

lemma success_files:
  assumes "page_count lib path = Some n" "1 \<le> n" "\<exists>p \<in> set sp. 1 \<le> p \<and> p < int n"
    and "fst (split_pdf_by_pages lib path sp folder s0) = Success"
  shows "new_files s0 (snd (split_pdf_by_pages lib path sp folder s0))
           = map (chunk_file folder)
               (chunks (make_boundaries (int n) (validate_split_pages (int n) sp)))"
proof -
  from assms(3) have ne: "validate_split_pages (int n) sp \<noteq> []" by (rule valid_nonempty)
  from success_saves [OF assms(1) assms(2) ne assms(4)]
  have "\<forall>c \<in> set (chunks (make_boundaries (int n) (validate_split_pages (int n) sp))).
           save_succeeds lib (chunk_path folder c)" .
  from run_success [OF assms(1) assms(2) ne this, of s0]
  show ?thesis by simp
qed

text \<open>
  C8. On a document of 100 pages split at 21 and 77, line 43 computes the boundaries
  0, 21, 77, 100 and the run writes exactly three files, \<open>chunk_1_to_21.pdf\<close> with the
  pages 1 to 21 (0 to 20 when counted from 0), \<open>chunk_22_to_77.pdf\<close> with the pages 22 to
  77 and \<open>chunk_78_to_100.pdf\<close> with the pages 78 to 100, in the output folder. In
  general, a run that completes on a document with at least one page and at least one
  valid split point has written, for each chunk \<open>[start_page, end_page)\<close> with
  \<open>start_page < end_page\<close>, in order, the file \<open>chunk_{start_page + 1}_to_{end_page}.pdf\<close>
  of the output folder holding the pages \<open>start_page\<close> to \<open>end_page - 1\<close>, and no other.
\<close>

theorem concrete_naming_and_chunking:
  assumes "r = split_pdf_by_pages lib input_pdf_path split_pages output_folder s0"
  shows "make_boundaries 100 (validate_split_pages 100 [21, 77]) = [0, 21, 77, 100]
     \<and> new_files fresh
         (snd (split_pdf_by_pages scenario ''pdf_to_split.pdf'' [21, 77] ''output_chunks'' fresh))
       = [(''output_chunks/chunk_1_to_21.pdf'', [0 .. 20]),
          (''output_chunks/chunk_22_to_77.pdf'', [21 .. 76]),
          (''output_chunks/chunk_78_to_100.pdf'', [77 .. 99])]
     \<and> (page_count lib input_pdf_path = Some n \<and> 1 \<le> n
          \<and> (\<exists>p \<in> set split_pages. 1 \<le> p \<and> p < int n) \<and> fst r = Success \<longrightarrow>
          new_files s0 (snd r)
            = map (\<lambda>(start_page, end_page).
                     (path_join output_folder
                        (''chunk_'' @ str_int (start_page + 1) @ ''_to_'' @ str_int end_page
                           @ ''.pdf''),
                      [start_page .. end_page - 1]))
                (chunks (make_boundaries (int n) (validate_split_pages (int n) split_pages))))"
proof (intro conjI impI)
  show "make_boundaries 100 (validate_split_pages 100 [21, 77]) = [0, 21, 77, 100]"
    by (simp add: run_eval)
  show "new_files fresh
         (snd (split_pdf_by_pages scenario ''pdf_to_split.pdf'' [21, 77] ''output_chunks'' fresh))
       = [(''output_chunks/chunk_1_to_21.pdf'', [0 .. 20]),
          (''output_chunks/chunk_22_to_77.pdf'', [21 .. 76]),
          (''output_chunks/chunk_78_to_100.pdf'', [77 .. 99])]"
    by (simp add: run_eval)
next
  assume a: "page_count lib input_pdf_path = Some n \<and> 1 \<le> n
          \<and> (\<exists>p \<in> set split_pages. 1 \<le> p \<and> p < int n) \<and> fst r = Success"
  have f: "chunk_file output_folder = (\<lambda>(start_page, end_page).
                     (path_join output_folder
                        (''chunk_'' @ str_int (start_page + 1) @ ''_to_'' @ str_int end_page
                           @ ''.pdf''),
                      [start_page .. end_page - 1]))"
    by (simp add: fun_eq_iff chunk_file_def chunk_path_def chunk_name_def)
  from a assms have "new_files s0 (snd r) = map (chunk_file output_folder)
      (chunks (make_boundaries (int n) (validate_split_pages (int n) split_pages)))"
    using success_files [of lib input_pdf_path n split_pages output_folder s0] by blast
  then show "new_files s0 (snd r)
            = map (\<lambda>(start_page, end_page).
                     (path_join output_folder
                        (''chunk_'' @ str_int (start_page + 1) @ ''_to_'' @ str_int end_page
                           @ ''.pdf''),
                      [start_page .. end_page - 1]))
                (chunks (make_boundaries (int n) (validate_split_pages (int n) split_pages)))"
    by (simp only: f)
qed

theorem concrete_naming_and_chunking_witness:
  "page_count scenario ''pdf_to_split.pdf'' = Some 100 \<and> (1::nat) \<le> 100
   \<and> (\<exists>p \<in> set [50, 50 :: int]. 1 \<le> p \<and> p < int 100)
   \<and> fst (split_pdf_by_pages scenario ''pdf_to_split.pdf'' [50, 50] ''output_chunks'' fresh)
       = Success
   \<and> new_files fresh
        (snd (split_pdf_by_pages scenario ''pdf_to_split.pdf'' [50, 50] ''output_chunks'' fresh))
       = [(''output_chunks/chunk_1_to_50.pdf'', [0 .. 49]),
          (''output_chunks/chunk_51_to_100.pdf'', [50 .. 99])]"
proof -
  have h: "page_count scenario ''pdf_to_split.pdf'' = Some 100 \<and> (1::nat) \<le> 100
      \<and> (\<exists>p \<in> set [50, 50 :: int]. 1 \<le> p \<and> p < int 100)
      \<and> fst (split_pdf_by_pages scenario ''pdf_to_split.pdf'' [50, 50] ''output_chunks'' fresh)
          = Success"
    by (simp add: run_eval)
  from concrete_naming_and_chunking [where lib = scenario
      and input_pdf_path = "''pdf_to_split.pdf''" and split_pages = "[50, 50]"
      and output_folder = "''output_chunks''" and ?s0.0 = fresh and n = 100, OF refl] h
  have "new_files fresh
        (snd (split_pdf_by_pages scenario ''pdf_to_split.pdf'' [50, 50] ''output_chunks'' fresh))
      = map (\<lambda>(start_page, end_page).
                     (path_join ''output_chunks''
                        (''chunk_'' @ str_int (start_page + 1) @ ''_to_'' @ str_int end_page
                           @ ''.pdf''),
                      [start_page .. end_page - 1]))
                (chunks (make_boundaries (int 100) (validate_split_pages (int 100) [50, 50])))"
    by blast
  also have "\<dots> = [(''output_chunks/chunk_1_to_50.pdf'', [0 .. 49]),
          (''output_chunks/chunk_51_to_100.pdf'', [50 .. 99])]"
    by (simp add: run_eval chunks_def adjacent_pairs_def live_def)
  finally show ?thesis using h by blast
qed

text \<open>
  C10. For a document with at least one page and an input with at least one valid
  split point, the boundaries of line 43 are strictly increasing, so the test
  \<open>start_page >= end_page\<close> of line 48 is false at every index the loop visits, and a
  run that completes has written exactly one file per valid split point plus one, all
  under different paths.
\<close>

theorem no_degenerate_chunks:
  assumes "page_count lib input_pdf_path = Some n" and "1 \<le> n"
    and "\<exists>p \<in> set split_pages. 1 \<le> p \<and> p < int n"
    and "boundaries = make_boundaries (int n) (validate_split_pages (int n) split_pages)"
    and "r = split_pdf_by_pages lib input_pdf_path split_pages output_folder s0"
  shows "sorted_wrt (<) boundaries
       \<and> (\<forall>chunk_idx < length boundaries - 1.
             \<not> boundaries ! chunk_idx \<ge> boundaries ! (chunk_idx + 1))
       \<and> (fst r = Success \<longrightarrow>
            length (new_files s0 (snd r))
              = card {p \<in> set split_pages. 1 \<le> p \<and> p < int n} + 1
            \<and> distinct (map fst (new_files s0 (snd r))))"
proof (intro conjI impI allI)
  have "1 \<le> int n" using assms(2) by simp
  from strictly_increasing_boundaries [OF this, of split_pages]
  show inc: "sorted_wrt (<) boundaries" by (simp only: assms(4))
  {
    fix chunk_idx assume "chunk_idx < length boundaries - 1"
    then have "chunk_idx + 1 < length boundaries" by simp
    then have "boundaries ! chunk_idx < boundaries ! (chunk_idx + 1)"
      using sorted_wrt_nth_less [OF inc, of chunk_idx "chunk_idx + 1"] by simp
    then show "\<not> boundaries ! chunk_idx \<ge> boundaries ! (chunk_idx + 1)" by simp
  }
  assume ok: "fst r = Success"
  have all: "chunks boundaries = adjacent_pairs boundaries" using inc by (rule chunks_all)
  from ok assms have nf: "new_files s0 (snd r) = map (chunk_file output_folder) (chunks boundaries)"
    using success_files [of lib input_pdf_path n split_pages output_folder s0] by blast
  have "length (validate_split_pages (int n) split_pages)
          = card {p \<in> set split_pages. 1 \<le> p \<and> p < int n}"
    using length_validate [of "int n" split_pages] by (simp add: in_range_def)
  then have "length boundaries = card {p \<in> set split_pages. 1 \<le> p \<and> p < int n} + 2"
    by (simp add: assms(4) make_boundaries_def)
  moreover have "length (new_files s0 (snd r)) = length boundaries - 1"
    by (simp add: nf all length_adjacent_pairs)
  ultimately show "length (new_files s0 (snd r))
              = card {p \<in> set split_pages. 1 \<le> p \<and> p < int n} + 1"
    by simp
  from inc have "distinct boundaries" by (simp add: strict_sorted_iff)
  then have "distinct (adjacent_pairs boundaries)" by (rule distinct_adjacent_pairs)
  then have "distinct (map (chunk_path output_folder) (chunks boundaries))"
    unfolding all by (rule chunk_path_distinct)
  moreover have "map fst (map (chunk_file output_folder) (chunks boundaries))
      = map (chunk_path output_folder) (chunks boundaries)"
    by (simp add: chunk_file_def)
  ultimately show "distinct (map fst (new_files s0 (snd r)))" by (simp only: nf)
qed

theorem no_degenerate_chunks_witness:
  "page_count scenario ''pdf_to_split.pdf'' = Some 100 \<and> (1::nat) \<le> 100
   \<and> (\<exists>p \<in> set [77, 21, 21 :: int]. 1 \<le> p \<and> p < int 100)
   \<and> fst (split_pdf_by_pages scenario ''pdf_to_split.pdf'' [77, 21, 21] ''output_chunks'' fresh)
       = Success
   \<and> sorted_wrt (<) (make_boundaries (int 100) (validate_split_pages (int 100) [77, 21, 21]))
   \<and> length (new_files fresh
        (snd (split_pdf_by_pages scenario ''pdf_to_split.pdf'' [77, 21, 21] ''output_chunks''
           fresh))) = 3"
proof -
  have h1: "page_count scenario ''pdf_to_split.pdf'' = Some 100" by (simp add: scenario_def)
  have h2: "(1::nat) \<le> 100" by simp
  have h3: "\<exists>p \<in> set [77, 21, 21 :: int]. 1 \<le> p \<and> p < int 100" by simp
  have h4: "fst (split_pdf_by_pages scenario ''pdf_to_split.pdf'' [77, 21, 21] ''output_chunks''
      fresh) = Success"
    by (simp add: run_eval)
  have c: "{p \<in> set [77, 21, 21 :: int]. 1 \<le> p \<and> p < int 100} = {21, 77}" by auto
  from no_degenerate_chunks [OF h1 h2 h3 refl refl, of "''output_chunks''" fresh] h4
  have "sorted_wrt (<) (make_boundaries (int 100) (validate_split_pages (int 100) [77, 21, 21]))
    \<and> length (new_files fresh
        (snd (split_pdf_by_pages scenario ''pdf_to_split.pdf'' [77, 21, 21] ''output_chunks''
           fresh))) = card {21, 77 :: int} + 1"
    unfolding c by blast
  with h1 h2 h3 h4 show ?thesis by simp
qed

lemma read_back:
  assumes "distinct (map fst new)" and "(p, v) \<in> set new" and "files s' = old @ new"
  shows "read_file s' p = Some v"
proof -
  from assms(1) have "distinct (map fst (rev new))" by (simp add: rev_map [symmetric])
  moreover from assms(2) have "(p, v) \<in> set (rev new)" by simp
  ultimately have "map_of (rev new) p = Some v" by (rule map_of_is_SomeI)
  then show ?thesis by (simp add: read_file_def assms(3))
qed

text \<open>
  C1. As the specification states it, for every set of valid split points, the chunks
  that the run produces cover the pages 0 to \<open>total_pages - 1\<close>. With no split point at all, on the
  document of 100 pages, the run returns at line 36 and has written nothing: the pages
  of the files it has produced are not the pages 0 to 99.
\<close>

theorem partition_coverage_counterexample:
  "page_count scenario ''pdf_to_split.pdf'' = Some 100
   \<and> fst (split_pdf_by_pages scenario ''pdf_to_split.pdf'' [] ''output_chunks'' fresh)
       = NoValidPoints
   \<and> concat (map snd (new_files fresh
        (snd (split_pdf_by_pages scenario ''pdf_to_split.pdf'' [] ''output_chunks'' fresh))))
       \<noteq> [0 .. 100 - 1]"
  by (simp add: run_eval)

text \<open>
  C1, amended. For a document of \<open>total_pages \<ge> 1\<close> pages and every input with at least
  one split point in range, the chunks \<open>[start_page, end_page)\<close> with
  \<open>start_page < end_page\<close> over the adjacent entries of the boundaries of line 43, taken in
  order, list every page from 0 to \<open>total_pages - 1\<close> exactly once (no gap, no overlap),
  and a run that completes has written exactly these page ranges, one file per chunk.
\<close>

theorem partition_coverage:
  assumes "page_count lib input_pdf_path = Some n" and "1 \<le> n"
    and "\<exists>p \<in> set split_pages. 1 \<le> p \<and> p < int n"
    and "boundaries = make_boundaries (int n) (validate_split_pages (int n) split_pages)"
    and "r = split_pdf_by_pages lib input_pdf_path split_pages output_folder s0"
  shows "concat (map (\<lambda>(start_page, end_page). [start_page .. end_page - 1]) (chunks boundaries))
           = [0 .. int n - 1]
       \<and> distinct (concat (map (\<lambda>(start_page, end_page). [start_page .. end_page - 1])
                              (chunks boundaries)))
       \<and> (fst r = Success \<longrightarrow>
             map snd (new_files s0 (snd r))
               = map (\<lambda>(start_page, end_page). [start_page .. end_page - 1]) (chunks boundaries)
             \<and> concat (map snd (new_files s0 (snd r))) = [0 .. int n - 1])"
proof -
  let ?pages = "\<lambda>(start_page, end_page). [start_page .. end_page - 1 :: int]"
  have p: "?pages = (\<lambda>c. [fst c .. snd c - 1])" by (simp add: fun_eq_iff)
  have "1 \<le> int n" using assms(2) by simp
  from strictly_increasing_boundaries [OF this, of split_pages]
  have s: "sorted boundaries" unfolding assms(4) by (rule strict_sorted_imp_sorted)
  have ne: "boundaries \<noteq> []" and hl: "hd boundaries = 0" "last boundaries = int n"
    by (simp_all add: assms(4) make_boundaries_def)
  from chunks_cover [OF s ne]
  have "concat (map (\<lambda>c. [fst c .. snd c - 1]) (chunks boundaries)) = [0 .. int n - 1]"
    by (simp only: hl)
  then have cover: "concat (map ?pages (chunks boundaries)) = [0 .. int n - 1]"
    by (simp only: p)
  then have dist: "distinct (concat (map ?pages (chunks boundaries)))" by simp
  have files: "fst r = Success \<longrightarrow>
      map snd (new_files s0 (snd r)) = map ?pages (chunks boundaries)
      \<and> concat (map snd (new_files s0 (snd r))) = [0 .. int n - 1]"
  proof
    assume "fst r = Success"
    with assms have "new_files s0 (snd r) = map (chunk_file output_folder) (chunks boundaries)"
      using success_files [of lib input_pdf_path n split_pages output_folder s0] by blast
    then have "map snd (new_files s0 (snd r)) = map ?pages (chunks boundaries)"
      by (simp add: chunk_file_def p comp_def)
    with cover show "map snd (new_files s0 (snd r)) = map ?pages (chunks boundaries)
      \<and> concat (map snd (new_files s0 (snd r))) = [0 .. int n - 1]"
      by simp
  qed
  from cover dist files show ?thesis by blast
qed

theorem partition_coverage_witness:
  "page_count scenario ''pdf_to_split.pdf'' = Some 100 \<and> (1::nat) \<le> 100
   \<and> (\<exists>p \<in> set [77, 21, 21, 0, 100 :: int]. 1 \<le> p \<and> p < int 100)
   \<and> fst (split_pdf_by_pages scenario ''pdf_to_split.pdf'' [77, 21, 21, 0, 100]
             ''output_chunks'' fresh) = Success
   \<and> chunks (make_boundaries (int 100) (validate_split_pages (int 100) [77, 21, 21, 0, 100]))
       = [(0, 21), (21, 77), (77, 100)]
   \<and> concat (map snd (new_files fresh
        (snd (split_pdf_by_pages scenario ''pdf_to_split.pdf'' [77, 21, 21, 0, 100]
                ''output_chunks'' fresh))))
       = [0 .. int 100 - 1]"
proof -
  have h1: "page_count scenario ''pdf_to_split.pdf'' = Some 100" by (simp add: scenario_def)
  have h2: "(1::nat) \<le> 100" by simp
  have h3: "\<exists>p \<in> set [77, 21, 21, 0, 100 :: int]. 1 \<le> p \<and> p < int 100" by simp
  have h4: "fst (split_pdf_by_pages scenario ''pdf_to_split.pdf'' [77, 21, 21, 0, 100]
             ''output_chunks'' fresh) = Success"
    by (simp add: run_eval)
  have c: "chunks (make_boundaries (int 100)
                     (validate_split_pages (int 100) [77, 21, 21, 0, 100]))
       = [(0, 21), (21, 77), (77, 100)]"
    by (simp add: run_eval chunks_def adjacent_pairs_def live_def)
  from partition_coverage [OF h1 h2 h3 refl refl, of "''output_chunks''" fresh] h4
  have "concat (map snd (new_files fresh
        (snd (split_pdf_by_pages scenario ''pdf_to_split.pdf'' [77, 21, 21, 0, 100]
                ''output_chunks'' fresh))))
       = [0 .. int 100 - 1]"
    by blast
  with h1 h2 h3 h4 c show ?thesis by blast
qed

text \<open>
  C4. Take a run on a document with at least one page and at least one valid split
  point, in which the saves of the chunks 1 to \<open>N - 1\<close> succeed and the save of chunk \<open>N\<close>
  fails. The function returns from line 65: the paths it has tried to write are those of
  the chunks 1 to \<open>N\<close> and no other, so no later chunk is attempted; every chunk document
  it has opened is closed again and the input document is closed; the files it has
  written are those of the chunks 1 to \<open>N - 1\<close>, still on disk after the return, each
  holding its pages.
\<close>

theorem fail_fast_on_write_failure:
  assumes "page_count lib input_pdf_path = Some n" and "1 \<le> n"
    and "\<exists>p \<in> set split_pages. 1 \<le> p \<and> p < int n"
    and "cs = chunks (make_boundaries (int n) (validate_split_pages (int n) split_pages))"
    and "1 \<le> N" and "N \<le> length cs"
    and "\<forall>k < N - 1. save_succeeds lib (chunk_path output_folder (cs ! k))"
    and "\<not> save_succeeds lib (chunk_path output_folder (cs ! (N - 1)))"
    and "r = split_pdf_by_pages lib input_pdf_path split_pages output_folder s0"
  shows "fst r = WriteError
       \<and> write_attempts (console (snd r))
           = write_attempts (console s0) @ map (chunk_path output_folder) (take N cs)
       \<and> new_docs_open (snd r) = new_docs_open s0
       \<and> doc (snd r) = IsClosed
       \<and> files (snd r) = files s0 @ map (chunk_file output_folder) (take (N - 1) cs)
       \<and> (\<forall>k < N - 1. read_file (snd r) (chunk_path output_folder (cs ! k))
                          = Some [fst (cs ! k) .. snd (cs ! k) - 1])"
proof -
  let ?bs = "make_boundaries (int n) (validate_split_pages (int n) split_pages)"
  let ?k = "N - 1"
  from assms(3) have ne: "validate_split_pages (int n) split_pages \<noteq> []"
    by (rule valid_nonempty)
  from assms(5) assms(6) have k: "?k < length cs" by simp
  note run = run_fail [OF assms(1) assms(2) ne assms(4) k assms(7) assms(8), of s0]
  have r: "r = (WriteError,
      (before_loop input_pdf_path n split_pages output_folder s0)
        \<lparr>files := files s0 @ map (chunk_file output_folder) (take ?k cs),
         console := console (before_loop input_pdf_path n split_pages output_folder s0)
                    @ concat (map (written_messages output_folder) (take ?k cs))
                    @ failed_messages output_folder (cs ! ?k),
         doc := IsClosed\<rparr>)"
    unfolding assms(9) by (rule run)
  have exit: "fst r = WriteError" by (simp add: r)
  have "take N cs = take ?k cs @ [cs ! ?k]"
    using k assms(5) take_Suc_conv_app_nth [of ?k cs] by simp
  then have att: "write_attempts (console (snd r))
           = write_attempts (console s0) @ map (chunk_path output_folder) (take N cs)"
    by (simp add: r)
  have nd: "new_docs_open (snd r) = new_docs_open s0" by (simp add: r)
  have d: "doc (snd r) = IsClosed" by (simp add: r)
  have f: "files (snd r) = files s0 @ map (chunk_file output_folder) (take ?k cs)"
    by (simp add: r)
  have "1 \<le> int n" using assms(2) by simp
  from strictly_increasing_boundaries [OF this, of split_pages]
  have inc: "sorted_wrt (<) ?bs" .
  then have "distinct ?bs" by (simp add: strict_sorted_iff)
  then have "distinct (adjacent_pairs ?bs)" by (rule distinct_adjacent_pairs)
  then have "distinct cs" using inc by (simp add: assms(4) chunks_all)
  then have "distinct (take ?k cs)" by simp
  then have "distinct (map (chunk_path output_folder) (take ?k cs))"
    by (rule chunk_path_distinct)
  then have dist: "distinct (map fst (map (chunk_file output_folder) (take ?k cs)))"
    by (simp add: chunk_file_def comp_def)
  have rd: "\<forall>j < ?k. read_file (snd r) (chunk_path output_folder (cs ! j))
                          = Some [fst (cs ! j) .. snd (cs ! j) - 1]"
  proof (intro allI impI)
    fix j assume j: "j < ?k"
    with k have "cs ! j \<in> set (take ?k cs)"
      by (metis in_set_conv_nth length_take min.absorb2 less_imp_le_nat nth_take)
    then have "(chunk_path output_folder (cs ! j), [fst (cs ! j) .. snd (cs ! j) - 1])
        \<in> set (map (chunk_file output_folder) (take ?k cs))"
      by (auto simp: chunk_file_def)
    from read_back [OF dist this f]
    show "read_file (snd r) (chunk_path output_folder (cs ! j))
            = Some [fst (cs ! j) .. snd (cs ! j) - 1]" .
  qed
  from exit att nd d f rd show ?thesis by blast
qed

theorem fail_fast_on_write_failure_witness:
  "page_count full_disk ''pdf_to_split.pdf'' = Some 100 \<and> (1::nat) \<le> 100
   \<and> (\<exists>p \<in> set [21, 77 :: int]. 1 \<le> p \<and> p < int 100)
   \<and> chunks (make_boundaries (int 100) (validate_split_pages (int 100) [21, 77]))
       = [(0, 21), (21, 77), (77, 100)]
   \<and> save_succeeds full_disk ''output_chunks/chunk_1_to_21.pdf''
   \<and> \<not> save_succeeds full_disk ''output_chunks/chunk_22_to_77.pdf''
   \<and> fst (split_pdf_by_pages full_disk ''pdf_to_split.pdf'' [21, 77] ''output_chunks'' fresh)
       = WriteError
   \<and> write_attempts (console (snd (split_pdf_by_pages full_disk ''pdf_to_split.pdf'' [21, 77]
                                        ''output_chunks'' fresh)))
       = [''output_chunks/chunk_1_to_21.pdf'', ''output_chunks/chunk_22_to_77.pdf'']
   \<and> new_docs_open (snd (split_pdf_by_pages full_disk ''pdf_to_split.pdf'' [21, 77]
                              ''output_chunks'' fresh)) = 0
   \<and> doc (snd (split_pdf_by_pages full_disk ''pdf_to_split.pdf'' [21, 77]
                    ''output_chunks'' fresh)) = IsClosed
   \<and> files (snd (split_pdf_by_pages full_disk ''pdf_to_split.pdf'' [21, 77]
                      ''output_chunks'' fresh))
       = [(''output_chunks/chunk_1_to_21.pdf'', [0 .. 20])]
   \<and> read_file (snd (split_pdf_by_pages full_disk ''pdf_to_split.pdf'' [21, 77]
                          ''output_chunks'' fresh)) ''output_chunks/chunk_1_to_21.pdf''
       = Some [0 .. 20]"
proof -
  let ?cs = "chunks (make_boundaries (int 100) (validate_split_pages (int 100) [21, 77]))"
  let ?r = "split_pdf_by_pages full_disk ''pdf_to_split.pdf'' [21, 77] ''output_chunks'' fresh"
  have h1: "page_count full_disk ''pdf_to_split.pdf'' = Some 100"
    by (simp add: full_disk_def scenario_def)
  have h2: "(1::nat) \<le> 100" by simp
  have h3: "\<exists>p \<in> set [21, 77 :: int]. 1 \<le> p \<and> p < int 100" by simp
  have cs: "?cs = [(0, 21), (21, 77), (77, 100)]"
    by (simp add: run_eval chunks_def adjacent_pairs_def live_def)
  have p1: "chunk_path ''output_chunks'' (0, 21) = ''output_chunks/chunk_1_to_21.pdf''"
    and p2: "chunk_path ''output_chunks'' (21, 77) = ''output_chunks/chunk_22_to_77.pdf''"
    by (simp_all add: chunk_path_def run_eval)
  have ok: "save_succeeds full_disk ''output_chunks/chunk_1_to_21.pdf''"
    and bad: "\<not> save_succeeds full_disk ''output_chunks/chunk_22_to_77.pdf''"
    by (simp_all add: full_disk_def scenario_def)
  have h5: "(1::nat) \<le> 2" by simp
  have h6: "2 \<le> length ?cs" unfolding cs by simp
  have h7: "\<forall>k < 2 - 1. save_succeeds full_disk (chunk_path ''output_chunks'' (?cs ! k))"
    unfolding cs using ok by (simp add: p1)
  have h8: "\<not> save_succeeds full_disk (chunk_path ''output_chunks'' (?cs ! (2 - 1)))"
    unfolding cs using bad by (simp add: p2)
  note t = fail_fast_on_write_failure [OF h1 h2 h3 refl h5 h6 h7 h8 refl, of fresh]
  from t have a: "fst ?r = WriteError" by blast
  from t have "write_attempts (console (snd ?r))
      = write_attempts (console fresh) @ map (chunk_path ''output_chunks'') (take 2 ?cs)"
    by blast
  then have b: "write_attempts (console (snd ?r))
      = [''output_chunks/chunk_1_to_21.pdf'', ''output_chunks/chunk_22_to_77.pdf'']"
    unfolding cs by (simp add: p1 p2 fresh_def write_attempts_def)
  from t have "new_docs_open (snd ?r) = new_docs_open fresh" by blast
  then have c: "new_docs_open (snd ?r) = 0" by (simp add: fresh_def)
  from t have d: "doc (snd ?r) = IsClosed" by blast
  from t have "files (snd ?r)
      = files fresh @ map (chunk_file ''output_chunks'') (take (2 - 1) ?cs)"
    by blast
  then have e: "files (snd ?r) = [(''output_chunks/chunk_1_to_21.pdf'', [0 .. 20])]"
    unfolding cs by (simp add: chunk_file_def p1 fresh_def)
  from t have "\<forall>k < 2 - 1. read_file (snd ?r) (chunk_path ''output_chunks'' (?cs ! k))
                          = Some [fst (?cs ! k) .. snd (?cs ! k) - 1]"
    by blast
  then have "read_file (snd ?r) (chunk_path ''output_chunks'' (?cs ! 0))
                          = Some [fst (?cs ! 0) .. snd (?cs ! 0) - 1]"
    by simp
  then have f: "read_file (snd ?r) ''output_chunks/chunk_1_to_21.pdf'' = Some [0 .. 20]"
    unfolding cs by (simp add: p1)
  from h1 h2 h3 cs ok bad a b c d e f show ?thesis by blast
qed

end
